theory Spec2Isabelle
  imports Complex_Main "HOL-Library.Word"
begin

unbundle bit_operations_syntax

section \<open>Python values used by \<open>idotmatrix/modules/text.py\<close>\<close>

text \<open>
  A \<open>bytearray\<close> is a list of 8-bit words. Python integers are unbounded and are
  modelled as \<open>int\<close>; lengths and indices that cannot be negative are \<open>nat\<close>.
  Every exception the module can raise is a value of \<open>error\<close>, and a function that
  can raise returns \<open>error + 'a\<close> with \<open>Inl\<close> for the exception.
\<close>

type_synonym byte = "8 word"
type_synonym bytes = "byte list"

datatype error = ValueError | OverflowError | IndexError | OSError | TransportError

text \<open>The slice \<open>xs[i:j]\<close> for non-negative \<open>i\<close> and \<open>j\<close>; it is clipped at the end of
  the list, as in Python.\<close>

definition py_slice :: "'a list \<Rightarrow> nat \<Rightarrow> nat \<Rightarrow> 'a list" where
  "py_slice xs i j = take (j - i) (drop i xs)"

text \<open>\<open>range(i, stop, step)\<close> for a positive step.\<close>

function range_from :: "nat \<Rightarrow> nat \<Rightarrow> nat \<Rightarrow> nat list" where
  "range_from i stop step =
     (if 0 < step \<and> i < stop then i # range_from (i + step) stop step else [])"
  by pat_completeness auto
termination
  by (relation "measure (\<lambda>(i, stop, step). stop - i)") auto

declare range_from.simps [simp del]

section \<open>Transport Chunker: \<open>_splitIntoChunks\<close>\<close>

text \<open>
  \<^verbatim>\<open>return [data[i : i + chunk_size] for i in range(0, len(data), chunk_size)]\<close>

  \<open>range\<close> raises \<open>ValueError\<close> for a step of zero and is empty for a negative step
  (its start 0 is never above its stop \<open>len(data)\<close>).
\<close>

definition splitIntoChunks :: "bytes \<Rightarrow> int \<Rightarrow> error + bytes list" where
  "splitIntoChunks data chunk_size =
     (if chunk_size = 0 then Inl ValueError
      else if chunk_size < 0 then Inr []
      else Inr (map (\<lambda>i. py_slice data i (i + nat chunk_size))
                  (range_from 0 (length data) (nat chunk_size))))"

section \<open>Byte-level operations of Python and zlib\<close>

text \<open>\<open>bytearray([...])\<close> of a list of integers raises \<open>ValueError\<close> unless every
  integer is in \<open>range(256)\<close>; \<open>bitmap.append(byte)\<close> checks the same.\<close>

definition bytearray :: "int list \<Rightarrow> error + bytes" where
  "bytearray xs =
     (if list_all (\<lambda>x. 0 \<le> x \<and> x < 256) xs then Inr (map word_of_int xs)
      else Inl ValueError)"

definition bytearray_append :: "bytes \<Rightarrow> int \<Rightarrow> error + bytes" where
  "bytearray_append bitmap b =
     (if 0 \<le> b \<and> b < 256 then Inr (bitmap @ [word_of_int b]) else Inl ValueError)"

text \<open>\<open>n.to_bytes(k, byteorder="little")\<close> raises \<open>OverflowError\<close> for a negative \<open>n\<close>
  and for an \<open>n\<close> that does not fit into \<open>k\<close> bytes.\<close>

fun le_bytes :: "nat \<Rightarrow> int \<Rightarrow> bytes" where
  "le_bytes 0 n = []"
| "le_bytes (Suc k) n = word_of_int n # le_bytes k (n div 256)"

definition to_bytes :: "int \<Rightarrow> nat \<Rightarrow> error + bytes" where
  "to_bytes n k = (if 0 \<le> n \<and> n < 256 ^ k then Inr (le_bytes k n) else Inl OverflowError)"

text \<open>\<open>int.from_bytes(bs, byteorder="little")\<close>, the reading of a little-endian field.\<close>

fun from_le :: "bytes \<Rightarrow> int" where
  "from_le [] = 0"
| "from_le (b # bs) = uint b + 256 * from_le bs"

text \<open>The slice assignment \<open>xs[i:j] = ys\<close> for non-negative \<open>i\<close> and \<open>j\<close>.\<close>

definition slice_assign :: "'a list \<Rightarrow> nat \<Rightarrow> nat \<Rightarrow> 'a list \<Rightarrow> 'a list" where
  "slice_assign xs i j ys =
     (let i' = min i (length xs); j' = max i' (min j (length xs))
      in take i' xs @ ys @ drop j' xs)"

text \<open>\<open>data.count(sub)\<close>: the number of non-overlapping occurrences of \<open>sub\<close> in
  \<open>data\<close>, found from left to right; for an empty \<open>sub\<close> Python answers
  \<open>len(data) + 1\<close>.\<close>

function count_sub :: "'a list \<Rightarrow> 'a list \<Rightarrow> nat" where
  "count_sub xs sub =
     (if sub = [] then length xs + 1
      else if length xs < length sub then 0
      else if take (length sub) xs = sub then 1 + count_sub (drop (length sub) xs) sub
      else count_sub (tl xs) sub)"
  by pat_completeness auto
termination
  by (relation "measure (\<lambda>(xs, sub). length xs)") (auto simp: not_less neq_Nil_conv)

declare count_sub.simps [simp del]

text \<open>\<open>zlib.crc32\<close>: the CRC-32 of IEEE 802.3 (reflected polynomial \<open>0xEDB88320\<close>,
  initial value and final complement \<open>0xFFFFFFFF\<close>), computed bit by bit; the result is
  an integer in \<open>range(2**32)\<close>.\<close>

definition crc32_shift :: "32 word \<Rightarrow> 32 word" where
  "crc32_shift c = (if bit c 0 then drop_bit 1 c XOR 0xEDB88320 else drop_bit 1 c)"

definition crc32_update :: "32 word \<Rightarrow> byte \<Rightarrow> 32 word" where
  "crc32_update c b = (crc32_shift ^^ 8) (c XOR ucast b)"

definition crc32 :: "bytes \<Rightarrow> int" where
  "crc32 data = uint (foldl crc32_update 0xFFFFFFFF data XOR 0xFFFFFFFF)"

section \<open>Packet Framer: \<open>_buildStringPacket\<close>\<close>

text \<open>The class attribute \<open>separator = b"\x05\xff\xff\xff"\<close>.\<close>

definition separator :: bytes where
  "separator = [0x05, 0xff, 0xff, 0xff]"

text \<open>
  The metadata list of lines 97 to 110, \<open>text_color\<close> and \<open>text_bg_color\<close> unpacked, and
  the header list of lines 115 to 134.
\<close>

definition text_metadata_init ::
  "int \<Rightarrow> int \<Rightarrow> int \<Rightarrow> int \<times> int \<times> int \<Rightarrow> int \<Rightarrow> int \<times> int \<times> int \<Rightarrow> error + bytes" where
  "text_metadata_init text_mode speed text_color_mode text_color text_bg_mode text_bg_color =
     (case text_color of (r, g, b) \<Rightarrow>
      case text_bg_color of (bg_r, bg_g, bg_b) \<Rightarrow>
        bytearray [0, 0, 0, 1, text_mode, speed, text_color_mode, r, g, b,
                   text_bg_mode, bg_r, bg_g, bg_b])"

definition header_init :: "error + bytes" where
  "header_init = bytearray [0, 0, 3, 0, 0, 0, 0, 0, 0, 0, 0, 0, 0, 0, 0, 12]"

definition buildStringPacket ::
  "bytes \<Rightarrow> int \<Rightarrow> int \<Rightarrow> int \<Rightarrow> int \<times> int \<times> int \<Rightarrow> int \<Rightarrow> int \<times> int \<times> int \<Rightarrow> error + bytes" where
  "buildStringPacket text_bitmaps text_mode speed text_color_mode text_color
       text_bg_mode text_bg_color =
     (let num_chars = int (count_sub text_bitmaps separator) in
      case text_metadata_init text_mode speed text_color_mode text_color
             text_bg_mode text_bg_color of
        Inl e \<Rightarrow> Inl e
      | Inr text_metadata \<Rightarrow>
      case to_bytes num_chars 2 of
        Inl e \<Rightarrow> Inl e
      | Inr count_field \<Rightarrow>
      let text_metadata = slice_assign text_metadata 0 2 count_field;
          packet = text_metadata @ text_bitmaps in
      case header_init of
        Inl e \<Rightarrow> Inl e
      | Inr header \<Rightarrow>
      let total_len = int (length packet) + int (length header) in
      case to_bytes total_len 2 of
        Inl e \<Rightarrow> Inl e
      | Inr total_field \<Rightarrow>
      let header = slice_assign header 0 2 total_field in
      case to_bytes (int (length packet)) 4 of
        Inl e \<Rightarrow> Inl e
      | Inr len_field \<Rightarrow>
      let header = slice_assign header 5 9 len_field in
      case to_bytes (crc32 packet) 4 of
        Inl e \<Rightarrow> Inl e
      | Inr crc_field \<Rightarrow>
      let header = slice_assign header 9 13 crc_field in
      Inr (header @ packet))"

section \<open>Images and fonts of the imaging library\<close>

text \<open>
  An image of mode \<open>"1"\<close> has a size \<open>(width, height)\<close> and one bit per pixel;
  \<open>im_px img x y\<close> tells whether the pixel in column \<open>x\<close> of row \<open>y\<close> is on.
  \<open>getpixel\<close> answers 255 for a pixel that is on and 0 for one that is off, and raises
  \<open>IndexError\<close> outside the image; the module calls it with non-negative coordinates only.
\<close>

record image =
  im_size :: "int \<times> int"
  im_px :: "int \<Rightarrow> int \<Rightarrow> bool"

definition in_image :: "image \<Rightarrow> int \<Rightarrow> int \<Rightarrow> bool" where
  "in_image img x y \<longleftrightarrow> 0 \<le> x \<and> x < fst (im_size img) \<and> 0 \<le> y \<and> y < snd (im_size img)"

text \<open>\<open>Image.new("1", size, 0)\<close>: all pixels off; a negative width or height raises
  \<open>ValueError\<close>.\<close>

definition Image_new :: "int \<times> int \<Rightarrow> error + image" where
  "Image_new sz =
     (if fst sz < 0 \<or> snd sz < 0 then Inl ValueError
      else Inr \<lparr>im_size = sz, im_px = (\<lambda>x y. False)\<rparr>)"

definition getpixel :: "image \<Rightarrow> int \<times> int \<Rightarrow> error + int" where
  "getpixel img xy =
     (case xy of (x, y) \<Rightarrow>
        if in_image img x y then Inr (if im_px img x y then 255 else 0) else Inl IndexError)"

text \<open>\<open>image.crop((left, upper, right, lower))\<close>: a new image of size
  \<open>(right - left, lower - upper)\<close>; what lies outside the source is off. A right edge
  left of the left edge, or a lower edge above the upper one, raises \<open>ValueError\<close>.\<close>

definition crop :: "image \<Rightarrow> int \<times> int \<times> int \<times> int \<Rightarrow> error + image" where
  "crop img box =
     (case box of (left, upper, right, lower) \<Rightarrow>
        if right < left \<or> lower < upper then Inl ValueError
        else Inr \<lparr>im_size = (right - left, lower - upper),
                  im_px = (\<lambda>x y. 0 \<le> x \<and> x < right - left \<and> 0 \<le> y \<and> y < lower - upper
                               \<and> in_image img (x + left) (y + upper)
                               \<and> im_px img (x + left) (y + upper))\<rparr>)"

text \<open>\<open>image.paste(im, (x, y))\<close>: the pixels of \<open>im\<close> replace those of the image in the
  box of the size of \<open>im\<close> at \<open>(x, y)\<close>, clipped to the image.\<close>

definition paste :: "image \<Rightarrow> image \<Rightarrow> int \<times> int \<Rightarrow> image" where
  "paste img im xy =
     (case xy of (x, y) \<Rightarrow>
        img\<lparr>im_px := (\<lambda>u v. if in_image img u v \<and> in_image im (u - x) (v - y)
                              then im_px im (u - x) (v - y) else im_px img u v)\<rparr>)"

text \<open>
  A loaded font: the bounding box \<open>getbbox\<close> of a text, the metrics
  \<open>(ascent, descent)\<close>, and for every character the pixels that drawing it at the origin
  turns on (\<open>glyph\<close>). The font file and its rasterisation are not part of the module:
  \<open>ImageFont.truetype\<close> is a parameter \<open>truetype\<close> of the functions below, which
  answers a font or raises \<open>OSError\<close>.
\<close>

record font =
  getbbox :: "string \<Rightarrow> int \<times> int \<times> int \<times> int"
  getmetrics :: "int \<times> int"
  glyph :: "char \<Rightarrow> int \<Rightarrow> int \<Rightarrow> bool"

text \<open>\<open>ImageDraw.Draw(image).text((0, 0), c, fill=1, font=font)\<close>.\<close>

definition draw_text :: "image \<Rightarrow> char \<Rightarrow> font \<Rightarrow> image" where
  "draw_text img c fnt =
     img\<lparr>im_px := (\<lambda>x y. (in_image img x y \<and> glyph fnt c x y) \<or> im_px img x y)\<rparr>"

section \<open>Bitmap Packer: \<open>_ConstructBitMap\<close>\<close>

text \<open>
  The inner loop \<open>for x in range(16)\<close> and the outer loop \<open>for y in range(32)\<close>; the
  loop state is the pair of the variables \<open>byte\<close> and \<open>bitmap\<close>.
\<close>

fun ConstructBitMap_x :: "image \<Rightarrow> int \<Rightarrow> int list \<Rightarrow> int \<times> bytes \<Rightarrow> error + int \<times> bytes" where
  "ConstructBitMap_x img y [] st = Inr st"
| "ConstructBitMap_x img y (x # xs) st =
     (case st of (byte0, bitmap) \<Rightarrow>
      let byte1 = (if x mod 8 = 0 then 0 else byte0) in
      case getpixel img (x, y) of
        Inl e \<Rightarrow> Inl e
      | Inr pixel \<Rightarrow>
      let byte2 = byte1 OR push_bit (nat (x mod 8)) (pixel AND 1) in
      if x mod 8 = 7 then
        (case bytearray_append bitmap byte2 of
           Inl e \<Rightarrow> Inl e
         | Inr bitmap' \<Rightarrow> ConstructBitMap_x img y xs (byte2, bitmap'))
      else ConstructBitMap_x img y xs (byte2, bitmap))"

fun ConstructBitMap_y :: "image \<Rightarrow> int list \<Rightarrow> int \<times> bytes \<Rightarrow> error + int \<times> bytes" where
  "ConstructBitMap_y img [] st = Inr st"
| "ConstructBitMap_y img (y # ys) st =
     (case ConstructBitMap_x img y [0..15] st of
        Inl e \<Rightarrow> Inl e
      | Inr st' \<Rightarrow> ConstructBitMap_y img ys st')"

definition ConstructBitMap :: "image \<Rightarrow> error + bytes" where
  "ConstructBitMap img =
     (case ConstructBitMap_y img [0..31] (0, []) of
        Inl e \<Rightarrow> Inl e
      | Inr st \<Rightarrow> Inr (snd st))"

section \<open>Glyph Rasterizer and serialisation: \<open>_StringToBitmaps\<close>\<close>

text \<open>
  The loop \<open>for c in text\<close> (lines 172 to 177), with the variables \<open>char_images\<close> and
  \<open>total_width\<close> as its state. A character of the text is one \<open>char\<close>.
\<close>

fun render_chars :: "font \<Rightarrow> int \<Rightarrow> string \<Rightarrow> image list \<times> int \<Rightarrow> error + image list \<times> int" where
  "render_chars fnt char_width [] st = Inr st"
| "render_chars fnt char_width (c # cs) st =
     (case st of (char_images, total_width) \<Rightarrow>
      case Image_new (char_width, 32) of
        Inl e \<Rightarrow> Inl e
      | Inr char_image \<Rightarrow>
          render_chars fnt char_width cs
            (char_images @ [draw_text char_image c fnt], total_width + char_width))"

text \<open>The loop \<open>for i, char in enumerate(char_images)\<close> (lines 189 to 191), which
  returns the image pasted into.\<close>

fun paste_chars :: "image \<Rightarrow> image list \<Rightarrow> int \<Rightarrow> int \<Rightarrow> int \<Rightarrow> image" where
  "paste_chars full_image [] x y width = full_image"
| "paste_chars full_image (ch # chs) x y width =
     paste_chars (paste full_image ch (x, y)) chs (x + width) y width"

text \<open>Lines 164 to 191: the Composite Strip \<open>full_image\<close>, with \<open>padded_width\<close>.
  \<open>char_images[0]\<close> raises \<open>IndexError\<close> for an empty list.\<close>

definition composite_strip :: "font \<Rightarrow> string \<Rightarrow> error + image \<times> int" where
  "composite_strip fnt text =
     (case getbbox fnt ''6'' of (bbox0, bbox1, bbox2, bbox3) \<Rightarrow>
      let char_width = bbox2 - bbox0 in
      case getmetrics fnt of (ascent, descent) \<Rightarrow>
      let char_height = ascent + descent in
      case render_chars fnt char_width text ([], 0) of
        Inl e \<Rightarrow> Inl e
      | Inr (char_images, total_width) \<Rightarrow>
      let padded_width = total_width + (- total_width) mod 16 in
      case char_images of
        [] \<Rightarrow> Inl IndexError
      | ch0 # _ \<Rightarrow>
      case im_size ch0 of (width, height) \<Rightarrow>
      case Image_new (padded_width, 32) of
        Inl e \<Rightarrow> Inl e
      | Inr full_image \<Rightarrow>
      let y = 16 - char_height div 2 in
      Inr (paste_chars full_image char_images 0 y width, padded_width))"

text \<open>The loop \<open>while left < padded_width\<close> (lines 197 to 202), with \<open>left\<close> and
  \<open>results\<close> as its state.\<close>

function crop_loop :: "image \<Rightarrow> int \<Rightarrow> int \<Rightarrow> bytes list \<Rightarrow> error + bytes list" where
  "crop_loop full_image padded_width left results =
     (if left < padded_width then
        (case crop full_image (left, 0, left + 16, 32) of
           Inl e \<Rightarrow> Inl e
         | Inr result \<Rightarrow>
        (case ConstructBitMap result of
           Inl e \<Rightarrow> Inl e
         | Inr bitmap \<Rightarrow> crop_loop full_image padded_width (left + 16) (results @ [bitmap])))
      else Inr results)"
  by pat_completeness auto
termination
  by (relation "measure (\<lambda>(full_image, padded_width, left, results). nat (padded_width - left))")
    auto

declare crop_loop.simps [simp del]

text \<open>The loop \<open>for bitmap in results\<close> (lines 204 to 207).\<close>

fun join_bitmaps :: "bytes list \<Rightarrow> bytes \<Rightarrow> bytes" where
  "join_bitmaps [] bytestream = bytestream"
| "join_bitmaps (bitmap # results) bytestream =
     join_bitmaps results (bytestream @ [0x05, 0xff, 0xff, 0xff] @ bitmap)"

text \<open>\<open>font_path or "./fonts/Rain-DRM3.otf"\<close> and \<open>font_size or 20\<close> replace \<open>None\<close>, the
  empty string and 0 by the default.\<close>

definition StringToBitmaps ::
  "(string \<Rightarrow> int \<Rightarrow> error + font) \<Rightarrow> string \<Rightarrow> string option \<Rightarrow> int option \<Rightarrow> error + bytes" where
  "StringToBitmaps truetype text font_path font_size =
     (let font_path' = (case font_path of None \<Rightarrow> ''./fonts/Rain-DRM3.otf''
                        | Some path \<Rightarrow> if path = [] then ''./fonts/Rain-DRM3.otf'' else path);
          font_size' = (case font_size of None \<Rightarrow> 20
                        | Some n \<Rightarrow> if n = 0 then 20 else n) in
      case truetype font_path' font_size' of
        Inl e \<Rightarrow> Inl e
      | Inr fnt \<Rightarrow>
      case composite_strip fnt text of
        Inl e \<Rightarrow> Inl e
      | Inr (full_image, padded_width) \<Rightarrow>
      case crop_loop full_image padded_width 0 [] of
        Inl e \<Rightarrow> Inl e
      | Inr results \<Rightarrow> Inr (join_bitmaps results []))"

section \<open>The entry point \<open>setMode\<close>\<close>

text \<open>
  The connection manager is not part of the module: it is a parameter, a pair of
  operations on the state \<open>'s\<close> of the link, each of which may raise (\<open>Some e\<close>).
  \<open>__init__\<close> stores a connection manager in \<open>self.conn\<close>; \<open>conn = None\<close> stands for
  a value of \<open>self.conn\<close> that the test \<open>if self.conn\<close> finds false.
\<close>

record 's ConnectionManager =
  connect :: "'s \<Rightarrow> error option \<times> 's"
  send :: "bytes \<Rightarrow> 's \<Rightarrow> error option \<times> 's"

record 's Text =
  conn :: "'s ConnectionManager option"

definition Text_init :: "'s ConnectionManager \<Rightarrow> 's Text" where
  "Text_init cm = \<lparr>conn = Some cm\<rparr>"

text \<open>\<open>setMode\<close> returns the packet or \<open>False\<close>.\<close>

datatype setMode_result = ReturnedFalse | ReturnedData bytes

text \<open>The loop \<open>for chunk in chunks: await self.conn.send(data=chunk)\<close>.\<close>

fun send_chunks :: "'s ConnectionManager \<Rightarrow> bytes list \<Rightarrow> 's \<Rightarrow> error option \<times> 's" where
  "send_chunks cm [] s = (None, s)"
| "send_chunks cm (chunk # chunks) s =
     (case send cm chunk s of
        (Some e, s') \<Rightarrow> (Some e, s')
      | (None, s') \<Rightarrow> send_chunks cm chunks s')"

text \<open>The body of \<open>setMode\<close>: every exception is caught by \<open>except BaseException\<close>, which
  logs it and returns \<open>False\<close>. The result is paired with the state of the link.\<close>

definition setMode ::
  "(string \<Rightarrow> int \<Rightarrow> error + font) \<Rightarrow> 's Text \<Rightarrow> string \<Rightarrow> int \<Rightarrow> string option \<Rightarrow> int \<Rightarrow> int \<Rightarrow> int
     \<Rightarrow> int \<times> int \<times> int \<Rightarrow> int \<Rightarrow> int \<times> int \<times> int \<Rightarrow> 's \<Rightarrow> setMode_result \<times> 's" where
  "setMode truetype self text font_size font_path text_mode speed text_color_mode text_color
       text_bg_mode text_bg_color s =
     (case StringToBitmaps truetype text font_path (Some font_size) of
        Inl error \<Rightarrow> (ReturnedFalse, s)
      | Inr text_bitmaps \<Rightarrow>
      case buildStringPacket text_bitmaps text_mode speed text_color_mode text_color
             text_bg_mode text_bg_color of
        Inl error \<Rightarrow> (ReturnedFalse, s)
      | Inr data \<Rightarrow>
      case conn self of
        None \<Rightarrow> (ReturnedData data, s)
      | Some cm \<Rightarrow>
      case connect cm s of
        (Some error, s1) \<Rightarrow> (ReturnedFalse, s1)
      | (None, s1) \<Rightarrow>
      case splitIntoChunks data 512 of
        Inl error \<Rightarrow> (ReturnedFalse, s1)
      | Inr chunks \<Rightarrow>
      case send_chunks cm chunks s1 of
        (Some error, s2) \<Rightarrow> (ReturnedFalse, s2)
      | (None, s2) \<Rightarrow> (ReturnedData data, s2))"

section \<open>Auxiliary values for the proofs\<close>

text \<open>
  The following are not part of the module; they name the values that the loops of
  \<open>_ConstructBitMap\<close> and \<open>_StringToBitmaps\<close> are proved to compute: the number whose
  bit \<open>k\<close> is the \<open>k\<close>-th entry of a list of bits, the first \<open>m\<close> pixels of byte \<open>j\<close>
  of row \<open>y\<close>, the bytes of a list of rows, and the 16 by 32 window at \<open>left\<close>.
\<close>

definition packed :: "bool list \<Rightarrow> int" where
  "packed bs = horner_sum of_bool 2 bs"

definition row_bits :: "image \<Rightarrow> int \<Rightarrow> int \<Rightarrow> nat \<Rightarrow> bool list" where
  "row_bits img y j m = map (\<lambda>k. im_px img (8 * j + int k) y) [0..<m]"

definition packed_rows :: "image \<Rightarrow> int list \<Rightarrow> bytes" where
  "packed_rows img ys =
     concat (map (\<lambda>y. [word_of_int (packed (row_bits img y 0 8)),
                         word_of_int (packed (row_bits img y 1 8))]) ys)"

definition cropped :: "image \<Rightarrow> int \<Rightarrow> image" where
  "cropped img left =
     \<lparr>im_size = (16, 32),
      im_px = (\<lambda>x y. 0 \<le> x \<and> x < 16 \<and> 0 \<le> y \<and> y < 32
                   \<and> in_image img (x + left) y \<and> im_px img (x + left) y)\<rparr>"

section \<open>Properties of the byte-level operations\<close>

lemma le_bytes_2: "le_bytes 2 n = [word_of_int n, word_of_int (n div 256)]"
  by (simp add: numeral_2_eq_2)

lemma le_bytes_4:
  "le_bytes 4 n = [word_of_int n, word_of_int (n div 256), word_of_int (n div 256 div 256),
                   word_of_int (n div 256 div 256 div 256)]"
  by (simp add: numeral_eq_Suc)

lemma length_le_bytes [simp]: "length (le_bytes k n) = k"
  by (induction k arbitrary: n) auto

lemma uint_byte_of_int: "uint (word_of_int n :: byte) = n mod 256"
  by (simp add: uint_word_of_int)

lemma from_le_le_bytes: "0 \<le> n \<Longrightarrow> n < 256 ^ k \<Longrightarrow> from_le (le_bytes k n) = n"
proof (induction k arbitrary: n)
  case 0
  then show ?case by simp
next
  case (Suc k)
  have "0 \<le> n div 256" "n div 256 < 256 ^ k"
    using Suc.prems by (auto simp: div_less_iff_less_mult pos_imp_zdiv_nonneg_iff mult.commute)
  then have "from_le (le_bytes k (n div 256)) = n div 256"
    by (rule Suc.IH)
  then show ?case
    by (simp add: uint_byte_of_int)
qed

lemma to_bytes_Inr: "to_bytes n k = Inr bs \<longleftrightarrow> 0 \<le> n \<and> n < 256 ^ k \<and> bs = le_bytes k n"
  by (auto simp: to_bytes_def)

lemma to_bytes_Inl: "to_bytes n k = Inl e \<longleftrightarrow> \<not> (0 \<le> n \<and> n < 256 ^ k) \<and> e = OverflowError"
  by (auto simp: to_bytes_def)

lemma crc32_range: "0 \<le> crc32 data \<and> crc32 data < 256 ^ 4"
proof -
  have "uint w < 2 ^ 32" for w :: "32 word"
    using uint_bounded [of w] by simp
  then show ?thesis by (simp add: crc32_def)
qed

section \<open>Properties of the Packet Framer\<close>

lemma text_metadata_init_Inr:
  "text_metadata_init m s cm (r, g, b) bgm (br, bgg, bb) = Inr md \<longleftrightarrow>
     list_all (\<lambda>x. 0 \<le> x \<and> x < 256) [m, s, cm, r, g, b, bgm, br, bgg, bb]
     \<and> md = [0, 0, 0, 1] @ map word_of_int [m, s, cm, r, g, b, bgm, br, bgg, bb]"
  by (auto simp: text_metadata_init_def bytearray_def)

lemma text_metadata_init_Inl:
  "text_metadata_init m s cm (r, g, b) bgm (br, bgg, bb) = Inl e \<longleftrightarrow>
     \<not> list_all (\<lambda>x. 0 \<le> x \<and> x < 256) [m, s, cm, r, g, b, bgm, br, bgg, bb]
     \<and> e = ValueError"
  by (auto simp: text_metadata_init_def bytearray_def)

lemma header_init_eq: "header_init = Inr [0, 0, 3, 0, 0, 0, 0, 0, 0, 0, 0, 0, 0, 0, 0, 12]"
  by (simp add: header_init_def bytearray_def)

lemma buildStringPacket_Inr:
  assumes "buildStringPacket bm m s cm (r, g, b) bgm (br, bgg, bb) = Inr p"
  shows "list_all (\<lambda>x. 0 \<le> x \<and> x < 256) [m, s, cm, r, g, b, bgm, br, bgg, bb]"
    and "int (count_sub bm separator) < 65536"
    and "int (length bm) + 30 < 65536"
    and "p = le_bytes 2 (int (length bm) + 30) @ [3, 0, 0]
             @ le_bytes 4 (int (length bm) + 14)
             @ le_bytes 4 (crc32 (le_bytes 2 (int (count_sub bm separator)) @ [0, 1]
                  @ map word_of_int [m, s, cm, r, g, b, bgm, br, bgg, bb] @ bm))
             @ [0, 0, 12]
             @ le_bytes 2 (int (count_sub bm separator)) @ [0, 1]
             @ map word_of_int [m, s, cm, r, g, b, bgm, br, bgg, bb] @ bm"
  using assms
  by (auto simp: buildStringPacket_def Let_def text_metadata_init_Inr header_init_eq
        to_bytes_Inr slice_assign_def le_bytes_2 le_bytes_4 add.commute
      split: sum.splits)

lemma buildStringPacket_Inl_ValueError:
  "buildStringPacket bm m s cm (r, g, b) bgm (br, bgg, bb) = Inl ValueError \<longleftrightarrow>
     \<not> list_all (\<lambda>x. 0 \<le> x \<and> x < 256) [m, s, cm, r, g, b, bgm, br, bgg, bb]"
  by (auto simp: buildStringPacket_def Let_def text_metadata_init_Inr text_metadata_init_Inl
        header_init_eq to_bytes_Inr to_bytes_Inl
      split: sum.splits)

lemma count_sub_bound: "sub \<noteq> [] \<Longrightarrow> count_sub xs sub * length sub \<le> length xs"
proof (induction xs sub rule: count_sub.induct)
  case (1 xs sub)
  show ?case
  proof (cases "length xs < length sub")
    case True
    with 1 show ?thesis by (simp add: count_sub.simps [of xs])
  next
    case False
    show ?thesis
    proof (cases "take (length sub) xs = sub")
      case True
      with 1 False have "count_sub (drop (length sub) xs) sub * length sub \<le> length xs - length sub"
        by simp
      with 1 False True show ?thesis
        by (simp add: count_sub.simps [of xs])
    next
      case F2: False
      with 1 False have "count_sub (tl xs) sub * length sub \<le> length xs - 1"
        by simp
      with 1 False F2 show ?thesis
        by (simp add: count_sub.simps [of xs])
    qed
  qed
qed

lemma count_sub_separator_le: "int (count_sub bm separator) \<le> int (length bm)"
  using count_sub_bound [of separator bm] by (simp add: separator_def)

lemma buildStringPacket_total:
  assumes "list_all (\<lambda>x. 0 \<le> x \<and> x < 256) [m, s, cm, r, g, b, bgm, br, bgg, bb]"
    and "int (length bm) + 30 < 65536"
  shows "\<exists>p. buildStringPacket bm m s cm (r, g, b) bgm (br, bgg, bb) = Inr p"
proof -
  have c: "int (count_sub bm separator) < 65536"
    using count_sub_separator_le [of bm] assms(2) by linarith
  obtain md where md: "text_metadata_init m s cm (r, g, b) bgm (br, bgg, bb) = Inr md"
    using assms(1) by (simp add: text_metadata_init_Inr)
  have len: "length md = 14" using md by (auto simp: text_metadata_init_Inr)
  show ?thesis
    using c assms(2) crc32_range
    by (simp add: buildStringPacket_def Let_def md header_init_eq to_bytes_def
        slice_assign_def len)
qed

text \<open>
  C2. In every packet that \<open>_buildStringPacket\<close> returns, the body is the 14 bytes of
  Text Metadata followed by the bitmap sequence; bytes 0 to 1 of the header are the
  little-endian encoding of 16 plus the length of the body, bytes 5 to 8 that of the
  length of the body, and bytes 9 to 12 that of the CRC-32 of the body.
\<close>

theorem buildStringPacket_header_fields:
  assumes "buildStringPacket text_bitmaps text_mode speed text_color_mode text_color
             text_bg_mode text_bg_color = Inr packet"
  shows "\<exists>text_metadata.
           length text_metadata = 14
         \<and> drop 16 packet = text_metadata @ text_bitmaps
         \<and> py_slice packet 0 2 = le_bytes 2 (16 + int (length (drop 16 packet)))
         \<and> from_le (py_slice packet 0 2) = 16 + int (length (drop 16 packet))
         \<and> py_slice packet 5 9 = le_bytes 4 (int (length (drop 16 packet)))
         \<and> from_le (py_slice packet 5 9) = int (length text_metadata) + int (length text_bitmaps)
         \<and> py_slice packet 9 13 = le_bytes 4 (crc32 (drop 16 packet))
         \<and> from_le (py_slice packet 9 13) = crc32 (drop 16 packet)"
proof -
  obtain r g b where tc: "text_color = (r, g, b)" by (cases text_color) auto
  obtain br bgg bb where bc: "text_bg_color = (br, bgg, bb)" by (cases text_bg_color) auto
  define md where "md = le_bytes 2 (int (count_sub text_bitmaps separator)) @ [0, 1]
     @ map word_of_int [text_mode, speed, text_color_mode, r, g, b, text_bg_mode, br, bgg, bb]"
  note facts = buildStringPacket_Inr [OF assms [unfolded tc bc]]
  have len: "length md = 14" by (simp add: md_def)
  have p: "packet = le_bytes 2 (int (length text_bitmaps) + 30) @ [3, 0, 0]
             @ le_bytes 4 (int (length text_bitmaps) + 14)
             @ le_bytes 4 (crc32 (md @ text_bitmaps)) @ [0, 0, 12] @ md @ text_bitmaps"
    using facts(4) by (simp add: md_def)
  have body: "drop 16 packet = md @ text_bitmaps"
    by (simp add: p)
  have blen: "int (length (drop 16 packet)) = int (length text_bitmaps) + 14"
    by (simp add: body len)
  have s1: "py_slice packet 0 2 = le_bytes 2 (int (length text_bitmaps) + 30)"
    by (simp add: p py_slice_def)
  have s2: "py_slice packet 5 9 = le_bytes 4 (int (length text_bitmaps) + 14)"
    by (simp add: p py_slice_def)
  have s3: "py_slice packet 9 13 = le_bytes 4 (crc32 (md @ text_bitmaps))"
    by (simp add: p py_slice_def)
  have d1: "from_le (le_bytes 2 (int (length text_bitmaps) + 30)) = int (length text_bitmaps) + 30"
    using facts(3) by (intro from_le_le_bytes) auto
  have d2: "from_le (le_bytes 4 (int (length text_bitmaps) + 14)) = int (length text_bitmaps) + 14"
    using facts(3) by (intro from_le_le_bytes) auto
  have d3: "from_le (le_bytes 4 (crc32 (md @ text_bitmaps))) = crc32 (md @ text_bitmaps)"
    using crc32_range [of "md @ text_bitmaps"] by (intro from_le_le_bytes) auto
  show ?thesis
    apply (rule exI [of _ md])
    using len body blen s1 s2 s3 d1 d2 d3 by (simp add: add.commute)
qed

theorem buildStringPacket_header_fields_witness:
  "\<exists>packet. buildStringPacket (separator @ replicate 64 0) 1 95 1 (255, 0, 0) 0 (0, 255, 0)
               = Inr packet
     \<and> (\<exists>text_metadata.
           length text_metadata = 14
         \<and> drop 16 packet = text_metadata @ separator @ replicate 64 0
         \<and> from_le (py_slice packet 0 2) = 98
         \<and> from_le (py_slice packet 5 9) = 82
         \<and> py_slice packet 9 13 = le_bytes 4 (crc32 (drop 16 packet))
         \<and> from_le (py_slice packet 9 13) = crc32 (drop 16 packet))"
proof -
  have "list_all (\<lambda>x. 0 \<le> x \<and> x < 256) [1, 95, 1, 255, 0, 0, 0, 0, 255, 0 :: int]"
    by simp
  moreover have "int (length (separator @ replicate 64 (0::byte))) + 30 < 65536"
    by (simp add: separator_def)
  ultimately obtain packet where
    h: "buildStringPacket (separator @ replicate 64 0) 1 95 1 (255, 0, 0) 0 (0, 255, 0)
          = Inr packet"
    using buildStringPacket_total by blast
  from buildStringPacket_header_fields [OF h] obtain text_metadata where
    "length text_metadata = 14"
    "drop 16 packet = text_metadata @ separator @ replicate 64 0"
    "from_le (py_slice packet 0 2) = 16 + int (length (drop 16 packet))"
    "from_le (py_slice packet 5 9) = int (length text_metadata)
       + int (length (separator @ replicate 64 (0::byte)))"
    "py_slice packet 9 13 = le_bytes 4 (crc32 (drop 16 packet))"
    "from_le (py_slice packet 9 13) = crc32 (drop 16 packet)"
    by blast
  then show ?thesis
    using h by (intro exI [of _ packet] conjI exI [of _ text_metadata]) (simp_all add: separator_def)
qed

lemma uint_byte_in_range: "0 \<le> x \<Longrightarrow> x < 256 \<Longrightarrow> uint (word_of_int x :: byte) = x"
  by (simp add: uint_byte_of_int)

text \<open>
  C10. \<open>_buildStringPacket\<close> does not compare the configuration with the enumerated
  options. When the display mode, the speed, the two colour modes and the six colour
  components all lie in 0..255, the construction of the metadata bytes raises nothing,
  the packet construction does not end in \<open>ValueError\<close>, and every returned packet holds
  the ten values unchanged in bytes 20 to 29 (bytes 4 to 13 of the metadata). When one
  of them lies outside 0..255, the packet construction raises \<open>ValueError\<close>.
\<close>

theorem buildStringPacket_no_range_validation:
  "(list_all (\<lambda>x. 0 \<le> x \<and> x < 256)
       [text_mode, speed, text_color_mode, r, g, b, text_bg_mode, bg_r, bg_g, bg_b] \<longrightarrow>
      (\<exists>md. text_metadata_init text_mode speed text_color_mode (r, g, b)
               text_bg_mode (bg_r, bg_g, bg_b) = Inr md
          \<and> map uint (drop 4 md)
              = [text_mode, speed, text_color_mode, r, g, b, text_bg_mode, bg_r, bg_g, bg_b])
      \<and> buildStringPacket text_bitmaps text_mode speed text_color_mode (r, g, b)
            text_bg_mode (bg_r, bg_g, bg_b) \<noteq> Inl ValueError
      \<and> (\<forall>packet. buildStringPacket text_bitmaps text_mode speed text_color_mode (r, g, b)
                     text_bg_mode (bg_r, bg_g, bg_b) = Inr packet \<longrightarrow>
             map uint (py_slice packet 20 30)
               = [text_mode, speed, text_color_mode, r, g, b, text_bg_mode, bg_r, bg_g, bg_b]))
   \<and> (\<not> list_all (\<lambda>x. 0 \<le> x \<and> x < 256)
          [text_mode, speed, text_color_mode, r, g, b, text_bg_mode, bg_r, bg_g, bg_b] \<longrightarrow>
        buildStringPacket text_bitmaps text_mode speed text_color_mode (r, g, b)
          text_bg_mode (bg_r, bg_g, bg_b) = Inl ValueError)"
proof (intro conjI impI allI)
  assume ok: "list_all (\<lambda>x. 0 \<le> x \<and> x < 256)
       [text_mode, speed, text_color_mode, r, g, b, text_bg_mode, bg_r, bg_g, bg_b]"
  then show "\<exists>md. text_metadata_init text_mode speed text_color_mode (r, g, b)
               text_bg_mode (bg_r, bg_g, bg_b) = Inr md
          \<and> map uint (drop 4 md)
              = [text_mode, speed, text_color_mode, r, g, b, text_bg_mode, bg_r, bg_g, bg_b]"
    by (simp add: text_metadata_init_Inr uint_byte_in_range)
  from ok show "buildStringPacket text_bitmaps text_mode speed text_color_mode (r, g, b)
            text_bg_mode (bg_r, bg_g, bg_b) \<noteq> Inl ValueError"
    by (simp only: buildStringPacket_Inl_ValueError not_not)
  fix packet
  assume "buildStringPacket text_bitmaps text_mode speed text_color_mode (r, g, b)
                     text_bg_mode (bg_r, bg_g, bg_b) = Inr packet"
  from buildStringPacket_Inr(4) [OF this] ok
  show "map uint (py_slice packet 20 30)
               = [text_mode, speed, text_color_mode, r, g, b, text_bg_mode, bg_r, bg_g, bg_b]"
    by (simp add: py_slice_def le_bytes_2 le_bytes_4 uint_byte_in_range)
next
  assume "\<not> list_all (\<lambda>x. 0 \<le> x \<and> x < 256)
          [text_mode, speed, text_color_mode, r, g, b, text_bg_mode, bg_r, bg_g, bg_b]"
  then show "buildStringPacket text_bitmaps text_mode speed text_color_mode (r, g, b)
          text_bg_mode (bg_r, bg_g, bg_b) = Inl ValueError"
    by (simp add: buildStringPacket_Inl_ValueError)
qed

theorem buildStringPacket_no_range_validation_witness:
  "(\<exists>packet. buildStringPacket (separator @ replicate 64 0) 200 95 1 (255, 0, 0) 0 (0, 255, 0)
               = Inr packet
       \<and> map uint (py_slice packet 20 30) = [200, 95, 1, 255, 0, 0, 0, 0, 255, 0])
   \<and> buildStringPacket (separator @ replicate 64 0) 256 95 1 (255, 0, 0) 0 (0, 255, 0)
        = Inl ValueError"
proof -
  have ok: "list_all (\<lambda>x. 0 \<le> x \<and> x < 256) [200, 95, 1, 255, 0, 0, 0, 0, 255, 0 :: int]"
    by simp
  have bad: "\<not> list_all (\<lambda>x. 0 \<le> x \<and> x < 256) [256, 95, 1, 255, 0, 0, 0, 0, 255, 0 :: int]"
    by simp
  have len: "int (length (separator @ replicate 64 (0::byte))) + 30 < 65536"
    by (simp add: separator_def)
  obtain packet where
    h: "buildStringPacket (separator @ replicate 64 0) 200 95 1 (255, 0, 0) 0 (0, 255, 0)
          = Inr packet"
    using buildStringPacket_total [OF ok len] by (rule exE)
  note t1 = buildStringPacket_no_range_validation
      [where text_mode = 200 and speed = 95 and text_color_mode = 1 and r = 255 and g = 0
         and b = 0 and text_bg_mode = 0 and bg_r = 0 and bg_g = 255 and bg_b = 0
         and text_bitmaps = "separator @ replicate 64 0"]
  note t2 = buildStringPacket_no_range_validation
      [where text_mode = 256 and speed = 95 and text_color_mode = 1 and r = 255 and g = 0
         and b = 0 and text_bg_mode = 0 and bg_r = 0 and bg_g = 255 and bg_b = 0
         and text_bitmaps = "separator @ replicate 64 0"]
  have 1: "map uint (py_slice packet 20 30) = [200, 95, 1, 255, 0, 0, 0, 0, 255, 0]"
    by (rule t1 [THEN conjunct1, THEN mp, OF ok, THEN conjunct2, THEN conjunct2,
          THEN spec, THEN mp, OF h])
  have 2:
    "buildStringPacket (separator @ replicate 64 0) 256 95 1 (255, 0, 0) 0 (0, 255, 0)
        = Inl ValueError"
    by (rule t2 [THEN conjunct2, THEN mp, OF bad])
  show ?thesis
    by (intro conjI exI [of _ packet]) (rule h, rule 1, rule 2)
qed

section \<open>Properties of the Bitmap Packer\<close>

lemma bit_packed: "bit (packed bs) n \<longleftrightarrow> n < length bs \<and> bs ! n"
  by (simp add: packed_def bit_horner_sum_bit_iff)

lemma packed_snoc: "packed (bs @ [p]) = packed bs OR push_bit (length bs) (of_bool p)"
  by (rule bit_eqI)
    (auto simp: bit_packed bit_or_iff bit_push_bit_iff bit_of_bool_iff nth_append less_Suc_eq)

lemma packed_nonneg: "0 \<le> packed bs"
  by (induction bs) (simp_all add: packed_def)

lemma packed_less: "packed bs < 2 ^ length bs"
proof (induction bs)
  case Nil
  then show ?case by (simp add: packed_def)
next
  case (Cons b bs)
  then show ?case by (cases b) (simp_all add: packed_def)
qed

lemma row_bits_Suc:
  "row_bits img y j (Suc m) = row_bits img y j m @ [im_px img (8 * j + int m) y]"
  by (simp add: row_bits_def)

lemma length_row_bits [simp]: "length (row_bits img y j m) = m"
  by (simp add: row_bits_def)

lemma getpixel_and_1:
  "in_image img x y \<Longrightarrow>
   getpixel img (x, y) = Inr pixel \<Longrightarrow> pixel AND 1 = of_bool (im_px img x y)"
  by (auto simp: getpixel_def split: if_splits)

lemma ConstructBitMap_x_step:
  assumes "in_image img x y"
  shows "ConstructBitMap_x img y (x # xs) (b, bm) =
     (if x mod 8 = 7 then
        (case bytearray_append bm
               ((if x mod 8 = 0 then 0 else b)
                  OR push_bit (nat (x mod 8)) (of_bool (im_px img x y))) of
           Inl e \<Rightarrow> Inl e
         | Inr bm' \<Rightarrow>
             ConstructBitMap_x img y xs
               ((if x mod 8 = 0 then 0 else b)
                  OR push_bit (nat (x mod 8)) (of_bool (im_px img x y)), bm'))
      else ConstructBitMap_x img y xs
             ((if x mod 8 = 0 then 0 else b)
                OR push_bit (nat (x mod 8)) (of_bool (im_px img x y)), bm))"
proof -
  obtain pixel where p: "getpixel img (x, y) = Inr pixel"
    using assms by (simp add: getpixel_def)
  have a: "pixel AND 1 = of_bool (im_px img x y)"
    using assms p by (rule getpixel_and_1)
  show ?thesis
    by (simp only: ConstructBitMap_x.simps prod.case Let_def p sum.case a)
qed

lemma ConstructBitMap_x_step_inner:
  assumes "in_image img x y" "x mod 8 \<noteq> 7"
  shows "ConstructBitMap_x img y (x # xs) (b, bm) =
         ConstructBitMap_x img y xs
           ((if x mod 8 = 0 then 0 else b)
              OR push_bit (nat (x mod 8)) (of_bool (im_px img x y)), bm)"
  using assms(2) by (simp only: ConstructBitMap_x_step [OF assms(1)] if_False)

lemma ConstructBitMap_x_step_last:
  assumes "in_image img x y" "x mod 8 = 7"
    and "B = b OR push_bit 7 (of_bool (im_px img x y))" "0 \<le> B" "B < 256"
  shows "ConstructBitMap_x img y (x # xs) (b, bm) =
         ConstructBitMap_x img y xs (B, bm @ [word_of_int B])"
proof -
  have "(if x mod 8 = 0 then 0 else b) OR push_bit (nat (x mod 8)) (of_bool (im_px img x y)) = B"
    using assms(2,3) by simp
  then show ?thesis
    using assms(2,4,5)
    by (simp only: ConstructBitMap_x_step [OF assms(1)] if_True bytearray_append_def
          simp_thms sum.case)
qed

lemma byte_run:
  assumes inb: "\<And>k. k < 8 \<Longrightarrow> in_image img (8 * j + int k) y"
    and m: "m \<le> 7"
    and b: "m = 0 \<or> b = packed (row_bits img y j m)"
  shows "ConstructBitMap_x img y (map (\<lambda>k. 8 * j + int k) [m..<8] @ rest) (b, bm) =
         ConstructBitMap_x img y rest
           (packed (row_bits img y j 8), bm @ [word_of_int (packed (row_bits img y j 8))])"
  using m b
proof (induction "7 - m" arbitrary: m b)
  case 0
  then have m7: "m = 7" by simp
  with 0 have b: "b = packed (row_bits img y j 7)" by simp
  have l: "map (\<lambda>k. 8 * j + int k) [m..<8] @ rest = (8 * j + 7) # rest"
    using m7 by (simp add: upt_rec)
  have mod: "(8 * j + 7) mod 8 = (7::int)" by simp
  have full: "packed (row_bits img y j 8)
                = b OR push_bit 7 (of_bool (im_px img (8 * j + 7) y))"
    using row_bits_Suc [of img y j 7] packed_snoc [of "row_bits img y j 7"]
    by (simp add: eval_nat_numeral b)
  have rng: "0 \<le> packed (row_bits img y j 8)" "packed (row_bits img y j 8) < 256"
    using packed_nonneg [of "row_bits img y j 8"] packed_less [of "row_bits img y j 8"]
    by simp_all
  have "in_image img (8 * j + 7) y" using inb [of 7] by simp
  from ConstructBitMap_x_step_last [OF this mod full rng] show ?case
    by (simp only: l)
next
  case (Suc n)
  then have m6: "m < 7" by simp
  let ?T = "map (\<lambda>k. 8 * j + int k) [Suc m..<8] @ rest"
  have l: "map (\<lambda>k. 8 * j + int k) [m..<8] @ rest = (8 * j + int m) # ?T"
    using m6 by (simp add: upt_rec [of m])
  have mod: "(8 * j + int m) mod 8 = int m" using m6 by simp
  have mod7: "(8 * j + int m) mod 8 \<noteq> 7" using m6 by (simp add: mod)
  have next_b: "(if (8 * j + int m) mod 8 = 0 then 0 else b)
                  OR push_bit (nat ((8 * j + int m) mod 8)) (of_bool (im_px img (8 * j + int m) y))
                = packed (row_bits img y j (Suc m))"
  proof (cases "m = 0")
    case True
    then show ?thesis by (simp add: row_bits_def packed_def)
  next
    case False
    with Suc.prems(2) have "b = packed (row_bits img y j m)" by simp
    moreover have "int m mod 8 = int m" using m6 by simp
    ultimately show ?thesis
      using packed_snoc [of "row_bits img y j m"] False
      by (simp add: row_bits_Suc)
  qed
  have inimg: "in_image img (8 * j + int m) y" using inb [of m] m6 by simp
  have "ConstructBitMap_x img y (map (\<lambda>k. 8 * j + int k) [m..<8] @ rest) (b, bm) =
        ConstructBitMap_x img y ?T (packed (row_bits img y j (Suc m)), bm)"
    by (simp only: l ConstructBitMap_x_step_inner [OF inimg mod7] next_b)
  also have "\<dots> = ConstructBitMap_x img y rest
           (packed (row_bits img y j 8), bm @ [word_of_int (packed (row_bits img y j 8))])"
    using Suc.hyps(2) m6 by (intro Suc.hyps(1)) auto
  finally show ?case .
qed

lemma row_list: "[0..15] = map (\<lambda>k. 8 * 0 + int k) [0..<8] @ map (\<lambda>k. 8 * 1 + int k) [0..<8] @ []"
  by (simp add: upto_rec1 upt_rec)

lemma ConstructBitMap_x_row:
  assumes "16 \<le> fst (im_size img)" "0 \<le> y" "y < snd (im_size img)"
  shows "ConstructBitMap_x img y [0..15] (b, bm) =
         Inr (packed (row_bits img y 1 8),
              bm @ [word_of_int (packed (row_bits img y 0 8)),
                    word_of_int (packed (row_bits img y 1 8))])"
proof -
  have i0: "in_image img (8 * 0 + int k) y" if "k < 8" for k
    using assms that by (simp add: in_image_def)
  have i1: "in_image img (8 * 1 + int k) y" if "k < 8" for k
    using assms that by (simp add: in_image_def)
  show ?thesis
    unfolding row_list
    by (simp only: byte_run [OF i0, of 0] byte_run [OF i1, of 0] le0 simp_thms
          ConstructBitMap_x.simps append_assoc append.simps)
qed


lemma ConstructBitMap_y_rows:
  assumes "16 \<le> fst (im_size img)" "\<forall>y \<in> set ys. 0 \<le> y \<and> y < snd (im_size img)"
  shows "\<exists>b'. ConstructBitMap_y img ys (b, bm) = Inr (b', bm @ packed_rows img ys)"
  using assms(2)
proof (induction ys arbitrary: b bm)
  case Nil
  then show ?case by (simp add: packed_rows_def)
next
  case (Cons y ys)
  then have y: "0 \<le> y" "y < snd (im_size img)" by simp_all
  from Cons.prems have "\<forall>y \<in> set ys. 0 \<le> y \<and> y < snd (im_size img)" by simp
  from Cons.IH [OF this, of "packed (row_bits img y 1 8)"
      "bm @ [word_of_int (packed (row_bits img y 0 8)), word_of_int (packed (row_bits img y 1 8))]"]
  show ?case
    by (simp add: ConstructBitMap_x_row [OF assms(1) y] packed_rows_def)
qed

lemma ConstructBitMap_eq:
  assumes "16 \<le> fst (im_size img)" "32 \<le> snd (im_size img)"
  shows "ConstructBitMap img = Inr (packed_rows img [0..31])"
proof -
  have "\<forall>y \<in> set [0..31]. 0 \<le> y \<and> y < snd (im_size img)"
    using assms(2) by auto
  from ConstructBitMap_y_rows [OF assms(1) this, of 0 "[]"] show ?thesis
    by (auto simp: ConstructBitMap_def)
qed

lemma length_packed_rows: "length (packed_rows img ys) = 2 * length ys"
  by (induction ys) (simp_all add: packed_rows_def)

lemma nth_packed_rows:
  "t < length ys \<Longrightarrow> j < 2 \<Longrightarrow>
   packed_rows img ys ! (2 * t + j) = word_of_int (packed (row_bits img (ys ! t) (int j) 8))"
proof (induction ys arbitrary: t)
  case Nil
  then show ?case by simp
next
  case (Cons y ys)
  show ?case
  proof (cases t)
    case 0
    with Cons.prems(2) have "j = 0 \<or> j = 1" by auto
    with 0 show ?thesis by (auto simp: packed_rows_def)
  next
    case (Suc t')
    with Cons.prems have "t' < length ys" by simp
    from Cons.IH [OF this Cons.prems(2)] Suc show ?thesis
      by (simp add: packed_rows_def)
  qed
qed

lemma bit_packed_byte:
  "k < 8 \<Longrightarrow>
   bit (word_of_int (packed (row_bits img y j 8)) :: byte) k \<longleftrightarrow> im_px img (8 * j + int k) y"
  by (simp add: bit_word_of_int_iff bit_packed row_bits_def)

lemma crop_block: "crop img (left, 0, left + 16, 32) = Inr (cropped img left)"
  by (simp add: crop_def cropped_def)

lemma crop_loop_eq:
  "m \<le> n \<Longrightarrow>
   crop_loop img (16 * int n) (16 * int m) results =
     Inr (results @ map (\<lambda>i. packed_rows (cropped img (16 * int i)) [0..31]) [m..<n])"
proof (induction "n - m" arbitrary: m results)
  case 0
  then show ?case by (subst crop_loop.simps) simp
next
  case (Suc d)
  then have lt: "m < n" by simp
  have cb: "ConstructBitMap (cropped img (16 * int m))
              = Inr (packed_rows (cropped img (16 * int m)) [0..31])"
    by (rule ConstructBitMap_eq) (simp_all add: cropped_def)
  have nxt: "16 * int m + 16 = 16 * int (Suc m)" by simp
  have "crop_loop img (16 * int n) (16 * int m) results =
        crop_loop img (16 * int n) (16 * int m + 16)
          (results @ [packed_rows (cropped img (16 * int m)) [0..31]])"
    using lt by (subst crop_loop.simps) (simp add: crop_block cb)
  also have "\<dots> = crop_loop img (16 * int n) (16 * int (Suc m))
          (results @ [packed_rows (cropped img (16 * int m)) [0..31]])"
    by (simp only: nxt)
  also have "\<dots> = Inr ((results @ [packed_rows (cropped img (16 * int m)) [0..31]])
                 @ map (\<lambda>i. packed_rows (cropped img (16 * int i)) [0..31]) [Suc m..<n])"
    using Suc.hyps(2) lt by (intro Suc.hyps(1)) auto
  finally show ?case using lt by (simp add: upt_rec [of m])
qed

text \<open>
  C4. For every image of height 32 and width \<open>16 * n\<close>, the loop over the 16 pixel wide
  windows returns exactly \<open>n\<close> blocks of exactly 64 bytes each, and bit \<open>k\<close> of byte
  \<open>2 * y + j\<close> of block \<open>i\<close> is set exactly when the pixel in column
  \<open>16 * i + 8 * j + k\<close> of row \<open>y\<close> is on: rows from top to bottom, two bytes per row,
  least significant bit first.
\<close>

theorem crop_loop_blocks:
  assumes "im_size full_image = (16 * int n, 32)"
  shows "\<exists>blocks. crop_loop full_image (16 * int n) 0 [] = Inr blocks
           \<and> length blocks = n
           \<and> (\<forall>i < n. length (blocks ! i) = 64
                 \<and> (\<forall>y < 32. \<forall>j < 2. \<forall>k < 8.
                       bit (blocks ! i ! (2 * y + j)) k
                         \<longleftrightarrow> im_px full_image (16 * int i + 8 * int j + int k) (int y)))"
proof -
  let ?blocks = "map (\<lambda>i. packed_rows (cropped full_image (16 * int i)) [0..31]) [0..<n]"
  have run: "crop_loop full_image (16 * int n) 0 [] = Inr ?blocks"
    using crop_loop_eq [of 0 n full_image "[]"] by simp
  have bits: "bit (?blocks ! i ! (2 * y + j)) k
                \<longleftrightarrow> im_px full_image (16 * int i + 8 * int j + int k) (int y)"
    if "i < n" "y < 32" "j < 2" "k < 8" for i y j k
  proof -
    have ny: "[0..31] ! y = int y" using that(2) by (simp add: nth_upto)
    have "?blocks ! i ! (2 * y + j)
            = word_of_int (packed (row_bits (cropped full_image (16 * int i)) (int y) (int j) 8))"
      using that nth_packed_rows [of y "[0..31]" j "cropped full_image (16 * int i)"]
      by (simp add: ny)
    moreover have "in_image full_image (8 * int j + int k + 16 * int i) (int y)"
      using that assms by (simp add: in_image_def)
    ultimately show ?thesis
      using that by (simp add: bit_packed_byte cropped_def add.commute add.left_commute)
  qed
  have len: "length (?blocks ! i) = 64" if "i < n" for i
    using that by (simp add: length_packed_rows)
  from run bits len show ?thesis
    by (intro exI [of _ ?blocks]) simp
qed

theorem crop_loop_blocks_witness:
  "im_size \<lparr>im_size = (16, 32), im_px = (\<lambda>x y. y = 0 \<and> (x = 0 \<or> x = 2))\<rparr> = (16 * int 1, 32)
   \<and> (\<exists>blocks. crop_loop \<lparr>im_size = (16, 32), im_px = (\<lambda>x y. y = 0 \<and> (x = 0 \<or> x = 2))\<rparr>
                  16 0 [] = Inr blocks
        \<and> length blocks = 1
        \<and> length (blocks ! 0) = 64
        \<and> bit (blocks ! 0 ! 0) 0 \<and> \<not> bit (blocks ! 0 ! 0) 1 \<and> bit (blocks ! 0 ! 0) 2
        \<and> \<not> bit (blocks ! 0 ! 1) 0 \<and> \<not> bit (blocks ! 0 ! 2) 0)"
proof -
  let ?img = "\<lparr>im_size = (16, 32), im_px = (\<lambda>x y. y = 0 \<and> (x = 0 \<or> x = (2::int)))\<rparr>"
  have h: "im_size ?img = (16 * int 1, 32)" by simp
  from crop_loop_blocks [OF h] obtain blocks where
    run: "crop_loop ?img (16 * int 1) 0 [] = Inr blocks" and len: "length blocks = 1"
    and each: "\<forall>i < 1. length (blocks ! i) = 64
                 \<and> (\<forall>y < 32. \<forall>j < 2. \<forall>k < 8.
                       bit (blocks ! i ! (2 * y + j)) k
                         \<longleftrightarrow> im_px ?img (16 * int i + 8 * int j + int k) (int y))"
    by blast
  from each have l0: "length (blocks ! 0) = 64"
    and bits: "\<And>y j k. y < 32 \<Longrightarrow> j < 2 \<Longrightarrow> k < 8 \<Longrightarrow>
      bit (blocks ! 0 ! (2 * y + j)) k \<longleftrightarrow> im_px ?img (16 * int 0 + 8 * int j + int k) (int y)"
    by simp_all
  have b0: "bit (blocks ! 0 ! 0) 0" using bits [of 0 0 0] by simp
  have b1: "\<not> bit (blocks ! 0 ! 0) 1" using bits [of 0 0 1] by simp
  have b2: "bit (blocks ! 0 ! 0) 2" using bits [of 0 0 2] by simp
  have b3: "\<not> bit (blocks ! 0 ! 1) 0" using bits [of 0 1 0] by simp
  have b4: "\<not> bit (blocks ! 0 ! 2) 0" using bits [of 1 0 0] by simp
  from run have run': "crop_loop ?img 16 0 [] = Inr blocks" by simp
  show ?thesis
    using h run' len l0 b0 b1 b2 b3 b4 by (intro conjI exI [of _ blocks]) simp_all
qed

section \<open>Properties of the Glyph Rasterizer\<close>

lemma Image_new_nonneg:
  "0 \<le> w \<Longrightarrow> 0 \<le> h \<Longrightarrow> Image_new (w, h) = Inr \<lparr>im_size = (w, h), im_px = (\<lambda>x y. False)\<rparr>"
  by (simp add: Image_new_def)

lemma im_size_draw_text [simp]: "im_size (draw_text img c fnt) = im_size img"
  by (simp add: draw_text_def)

lemma im_size_paste [simp]: "im_size (paste img im xy) = im_size img"
  by (cases xy) (simp add: paste_def)

lemma im_size_paste_chars [simp]: "im_size (paste_chars img chs x y w) = im_size img"
  by (induction chs arbitrary: img x) simp_all

lemma render_chars_nonneg:
  "0 \<le> char_width \<Longrightarrow>
   render_chars fnt char_width text (char_images, total_width) =
     Inr (char_images
            @ map (\<lambda>c. draw_text \<lparr>im_size = (char_width, 32), im_px = (\<lambda>x y. False)\<rparr> c fnt) text,
          total_width + int (length text) * char_width)"
  by (induction "text" arbitrary: char_images total_width)
    (simp_all add: Image_new_nonneg algebra_simps)

lemma render_chars_empty: "render_chars fnt char_width [] st = Inr st"
  by simp

lemma paste_chars_right:
  assumes "\<forall>ch \<in> set chs. fst (im_size ch) = w" "0 \<le> w" "x + int (length chs) * w \<le> u"
  shows "im_px (paste_chars img chs x y w) u v = im_px img u v"
  using assms(1,3)
proof (induction chs arbitrary: img x)
  case Nil
  then show ?case by simp
next
  case (Cons ch chs)
  have "0 \<le> int (length chs) * w" using assms(2) by simp
  with Cons.prems(2) have far: "x + w \<le> u" by (simp add: algebra_simps)
  have w: "fst (im_size ch) = w" using Cons.prems(1) by simp
  have keep: "im_px (paste img ch (x, y)) u v = im_px img u v"
    using far w by (simp add: paste_def in_image_def)
  have "im_px (paste_chars (paste img ch (x, y)) chs (x + w) y w) u v
          = im_px (paste img ch (x, y)) u v"
    using Cons.prems by (intro Cons.IH) (simp_all add: algebra_simps)
  with keep show ?case by simp
qed

lemma pad_to_16: "t + (- t) mod 16 = \<lceil>real_of_int t / 16\<rceil> * 16" for t :: int
proof -
  have "\<lceil>real_of_int t / real_of_int 16\<rceil> = - (- t div 16)"
    by (rule ceiling_divide_eq_div)
  moreover have "(- t) mod 16 = - t - 16 * (- t div 16)"
    by (simp add: minus_div_mult_eq_mod [symmetric] algebra_simps)
  ultimately show ?thesis by simp
qed

lemma pad_to_16_bounds: "t \<le> t + (- t) mod 16 \<and> (t + (- t) mod 16) mod 16 = 0" for t :: int
  by presburger

lemma case_map_nonempty:
  "xs \<noteq> [] \<Longrightarrow>
   (case map f xs of [] \<Rightarrow> a | y # ys \<Rightarrow> g y ys) = g (f (hd xs)) (map f (tl xs))"
  by (cases xs) simp_all

lemma composite_strip_eq:
  assumes "text \<noteq> []"
    and "getbbox fnt ''6'' = (bbox0, bbox1, bbox2, bbox3)"
    and "getmetrics fnt = (ascent, descent)"
    and "0 \<le> bbox2 - bbox0"
  shows "composite_strip fnt text =
     Inr (paste_chars
            \<lparr>im_size = (int (length text) * (bbox2 - bbox0)
                          + (- (int (length text) * (bbox2 - bbox0))) mod 16, 32),
             im_px = (\<lambda>x y. False)\<rparr>
            (map (\<lambda>c. draw_text \<lparr>im_size = (bbox2 - bbox0, 32), im_px = (\<lambda>x y. False)\<rparr> c fnt)
               text)
            0 (16 - (ascent + descent) div 2) (bbox2 - bbox0),
          int (length text) * (bbox2 - bbox0)
            + (- (int (length text) * (bbox2 - bbox0))) mod 16)"
proof -
  let ?W = "bbox2 - bbox0"
  let ?T = "int (length text) * ?W"
  let ?P = "?T + (- ?T) mod 16"
  have "0 \<le> ?T" using assms(4) by simp
  then have P0: "0 \<le> ?P" using pad_to_16_bounds [of ?T] by linarith
  have new: "Image_new (?P, 32) = Inr \<lparr>im_size = (?P, 32), im_px = (\<lambda>x y. False)\<rparr>"
    using P0 by (rule Image_new_nonneg) simp
  have rc: "render_chars fnt ?W text ([], 0) =
      Inr (map (\<lambda>c. draw_text \<lparr>im_size = (?W, 32), im_px = (\<lambda>x y. False)\<rparr> c fnt) text, ?T)"
    using render_chars_nonneg [OF assms(4), of fnt "text" "[]" 0] by simp
  show ?thesis
    unfolding composite_strip_def assms(2) assms(3) prod.case Let_def rc sum.case
      case_map_nonempty [OF assms(1)] im_size_draw_text new
    by simp
qed

lemma join_bitmaps_eq:
  "join_bitmaps results bytestream
     = bytestream @ concat (map (\<lambda>bitmap. separator @ bitmap) results)"
  by (induction results arbitrary: bytestream) (simp_all add: separator_def)

lemma render_chars_negative:
  "char_width < 0 \<Longrightarrow> text \<noteq> [] \<Longrightarrow> render_chars fnt char_width text st = Inl ValueError"
  by (cases "text"; cases st) (simp_all add: Image_new_def)

lemma composite_strip_empty: "composite_strip fnt [] = Inl IndexError"
  by (simp add: composite_strip_def Let_def split: prod.splits)

lemma composite_strip_Inr:
  assumes "composite_strip fnt text = Inr (full_image, padded_width)"
  shows "\<exists>n. padded_width = 16 * int n \<and> im_size full_image = (16 * int n, 32)"
proof -
  obtain bbox0 bbox1 bbox2 bbox3 where bb: "getbbox fnt ''6'' = (bbox0, bbox1, bbox2, bbox3)"
    by (cases "getbbox fnt ''6''") auto
  obtain ascent descent where met: "getmetrics fnt = (ascent, descent)"
    by (cases "getmetrics fnt") auto
  have ne: "text \<noteq> []"
    using assms composite_strip_empty by auto
  have W: "0 \<le> bbox2 - bbox0"
  proof (rule ccontr)
    assume "\<not> 0 \<le> bbox2 - bbox0"
    then have "render_chars fnt (bbox2 - bbox0) text ([], 0) = Inl ValueError"
      using ne by (intro render_chars_negative) simp_all
    with assms show False
      by (simp add: composite_strip_def bb met Let_def)
  qed
  let ?T = "int (length text) * (bbox2 - bbox0)"
  from composite_strip_eq [OF ne bb met W] assms
  have pw: "padded_width = ?T + (- ?T) mod 16"
    and sz: "im_size full_image = (padded_width, 32)"
    by auto
  have "0 \<le> ?T" using W by simp
  with pw pad_to_16_bounds [of ?T] have "0 \<le> padded_width" "padded_width mod 16 = 0"
    by simp_all
  then have "padded_width = 16 * int (nat (padded_width div 16))"
    by (simp add: pos_imp_zdiv_nonneg_iff) presburger
  with sz show ?thesis by metis
qed

lemma StringToBitmaps_Inr:
  assumes "StringToBitmaps truetype text font_path font_size = Inr text_bitmaps"
  shows "\<exists>blocks. text_bitmaps = concat (map (\<lambda>block. separator @ block) blocks)
           \<and> (\<forall>block \<in> set blocks. length block = 64)"
proof -
  from assms obtain fnt full_image padded_width results where
    cs: "composite_strip fnt text = Inr (full_image, padded_width)"
    and cl: "crop_loop full_image padded_width 0 [] = Inr results"
    and tb: "text_bitmaps = join_bitmaps results []"
    by (auto simp: StringToBitmaps_def Let_def split: sum.splits prod.splits)
  from composite_strip_Inr [OF cs] obtain n where
    n: "padded_width = 16 * int n" "im_size full_image = (16 * int n, 32)"
    by blast
  from crop_loop_eq [of 0 n full_image "[]"] cl n(1)
  have "results = map (\<lambda>i. packed_rows (cropped full_image (16 * int i)) [0..31]) [0..<n]"
    by simp
  then have "\<forall>block \<in> set results. length block = 64"
    by (auto simp: length_packed_rows)
  with tb show ?thesis
    by (intro exI [of _ results]) (simp add: join_bitmaps_eq)
qed

text \<open>
  C6. For every non-empty text and every font whose reference glyph \<open>"6"\<close> has a
  bounding box of width \<open>W = bbox[2] - bbox[0] \<ge> 0\<close>, lines 164 to 191 build a strip of
  height 32 and of width \<open>ceil(len(text) * W / 16) * 16\<close>, which is divisible by 16, and
  every pixel in a column at or right of \<open>len(text) * W\<close> is off.
\<close>

theorem composite_strip_width:
  assumes "text \<noteq> []"
    and "getbbox fnt ''6'' = (bbox0, bbox1, bbox2, bbox3)"
    and "0 \<le> bbox2 - bbox0"
  shows "\<exists>full_image padded_width.
           composite_strip fnt text = Inr (full_image, padded_width)
         \<and> im_size full_image = (padded_width, 32)
         \<and> padded_width = \<lceil>real_of_int (int (length text) * (bbox2 - bbox0)) / 16\<rceil> * 16
         \<and> padded_width mod 16 = 0
         \<and> (\<forall>x y. int (length text) * (bbox2 - bbox0) \<le> x \<longrightarrow> \<not> im_px full_image x y)"
proof -
  let ?W = "bbox2 - bbox0"
  let ?T = "int (length text) * ?W"
  let ?P = "?T + (- ?T) mod 16"
  let ?chars = "map (\<lambda>c. draw_text \<lparr>im_size = (?W, 32), im_px = (\<lambda>x y. False)\<rparr> c fnt) text"
  let ?blank = "\<lparr>im_size = (?P, 32), im_px = (\<lambda>x y. False)\<rparr>"
  obtain ascent descent where met: "getmetrics fnt = (ascent, descent)"
    by (cases "getmetrics fnt") auto
  let ?full = "paste_chars ?blank ?chars 0 (16 - (ascent + descent) div 2) ?W"
  have cs: "composite_strip fnt text = Inr (?full, ?P)"
    by (rule composite_strip_eq [OF assms(1,2) met assms(3)])
  have sz: "im_size ?full = (?P, 32)" by simp
  have widths: "\<forall>ch \<in> set ?chars. fst (im_size ch) = ?W"
    by simp
  have pad: "\<not> im_px ?full x v" if "?T \<le> x" for x v
  proof -
    have "im_px ?full x v = im_px ?blank x v"
      using that by (intro paste_chars_right [OF widths assms(3)]) simp
    then show ?thesis by simp
  qed
  have Pc: "?P = \<lceil>real_of_int ?T / 16\<rceil> * 16" by (rule pad_to_16)
  have Pm: "?P mod 16 = 0" using pad_to_16_bounds [of ?T] by blast
  show ?thesis
  proof (intro exI conjI allI impI)
    show "composite_strip fnt text = Inr (?full, ?P)" by (rule cs)
    show "im_size ?full = (?P, 32)" by (rule sz)
    show "?P = \<lceil>real_of_int ?T / 16\<rceil> * 16" by (rule Pc)
    show "?P mod 16 = 0" by (rule Pm)
    show "\<not> im_px ?full x y" if "?T \<le> x" for x y using that by (rule pad)
  qed
qed

theorem composite_strip_width_witness:
  "''A'' \<noteq> []
   \<and> getbbox \<lparr>getbbox = (\<lambda>s. (0, 0, 10, 12)), getmetrics = (12, 4),
               glyph = (\<lambda>c x y. x = y)\<rparr> ''6'' = (0, 0, 10, 12)
   \<and> (0::int) \<le> 10 - 0
   \<and> (\<exists>full_image padded_width.
         composite_strip \<lparr>getbbox = (\<lambda>s. (0, 0, 10, 12)), getmetrics = (12, 4),
                           glyph = (\<lambda>c x y. x = y)\<rparr> ''A'' = Inr (full_image, padded_width)
       \<and> im_size full_image = (16, 32)
       \<and> padded_width = 16
       \<and> padded_width mod 16 = 0
       \<and> (\<forall>x y. 10 \<le> x \<longrightarrow> \<not> im_px full_image x y))"
proof -
  let ?F = "\<lparr>getbbox = (\<lambda>s. (0, 0, 10, 12)), getmetrics = (12, 4),
             glyph = (\<lambda>c x y. x = y)\<rparr> :: font"
  have h1: "''A'' \<noteq> []" by simp
  have h2: "getbbox ?F ''6'' = (0, 0, 10, 12)" by simp
  have h3: "(0::int) \<le> 10 - 0" by simp
  from composite_strip_width [OF h1 h2 h3] obtain full_image padded_width where
    all: "composite_strip ?F ''A'' = Inr (full_image, padded_width)
      \<and> im_size full_image = (padded_width, 32)
      \<and> padded_width = \<lceil>real_of_int (int (length ''A'') * (10 - 0)) / 16\<rceil> * 16
      \<and> padded_width mod 16 = 0
      \<and> (\<forall>x y. int (length ''A'') * (10 - 0) \<le> x \<longrightarrow> \<not> im_px full_image x y)"
    by (elim exE)
  note cs = all [THEN conjunct1]
    and sz = all [THEN conjunct2, THEN conjunct1]
    and pw = all [THEN conjunct2, THEN conjunct2, THEN conjunct1]
    and pm = all [THEN conjunct2, THEN conjunct2, THEN conjunct2, THEN conjunct1]
    and pad = all [THEN conjunct2, THEN conjunct2, THEN conjunct2, THEN conjunct2]
  have c: "\<lceil>(10::real) / 16\<rceil> = 1" by (simp add: ceiling_eq_iff)
  from pw c have p16: "padded_width = 16" by simp
  from pad have pad': "\<forall>x y. 10 \<le> x \<longrightarrow> \<not> im_px full_image x y" by simp
  show ?thesis
    using h1 h2 h3 cs sz p16 pm pad' by (intro conjI exI [of _ full_image] exI [of _ padded_width]) simp_all
qed

section \<open>Properties of the Transport Chunker\<close>

lemma concat_slices_range_from:
  "0 < k \<Longrightarrow>
   concat (map (\<lambda>i. py_slice data i (i + k)) (range_from i (length data) k)) = drop i data"
proof (induction i "length data" k rule: range_from.induct)
  case (1 i step)
  show ?case
  proof (cases "i < length data")
    case True
    have "py_slice data i (i + step) @ drop (i + step) data = drop i data"
      by (simp add: py_slice_def add.commute [of i step] flip: drop_drop)
    with 1 True show ?thesis
      by (simp add: range_from.simps [of i])
  next
    case False
    then show ?thesis
      by (simp add: range_from.simps [of i])
  qed
qed

lemma range_from_nth:
  "0 < k \<Longrightarrow> j < length (range_from i n k) \<Longrightarrow> range_from i n k ! j = i + j * k"
proof (induction i n k arbitrary: j rule: range_from.induct)
  case (1 i stop step)
  show ?case
  proof (cases "i < stop")
    case True
    show ?thesis
    proof (cases j)
      case 0
      with True 1 show ?thesis by (simp add: range_from.simps [of i])
    next
      case (Suc j')
      with True 1 have "j' < length (range_from (i + step) stop step)"
        by (simp add: range_from.simps [of i])
      with 1 True have "range_from (i + step) stop step ! j' = i + step + j' * step"
        by simp
      with True 1 Suc show ?thesis by (simp add: range_from.simps [of i])
    qed
  next
    case False
    with 1 show ?thesis by (simp add: range_from.simps [of i])
  qed
qed

lemma range_from_less:
  "x \<in> set (range_from i n k) \<Longrightarrow> x < n"
proof (induction i n k rule: range_from.induct)
  case (1 i stop step)
  then show ?case
    by (cases "0 < step \<and> i < stop") (auto simp: range_from.simps [of i])
qed

lemma range_from_last_reach:
  "0 < k \<Longrightarrow> j < length (range_from i n k) \<Longrightarrow> Suc j < length (range_from i n k) \<Longrightarrow>
   i + Suc j * k < n"
proof -
  assume k: "0 < k" and sj: "Suc j < length (range_from i n k)"
  have "range_from i n k ! Suc j \<in> set (range_from i n k)"
    using sj by (rule nth_mem)
  then have "range_from i n k ! Suc j < n"
    by (rule range_from_less)
  with range_from_nth [OF k sj] show ?thesis by simp
qed

lemma range_from_Nil_iff: "0 < k \<Longrightarrow> range_from 0 n k = [] \<longleftrightarrow> n = 0"
  by (simp add: range_from.simps [of 0])

text \<open>
  C3. For every chunk size of at least 1 (512 in \<open>setMode\<close>), \<open>_splitIntoChunks\<close> returns
  the consecutive slices of the packet in order: chunk \<open>i\<close> is
  \<open>data[i*size : i*size + size]\<close>, every chunk holds between 1 and \<open>size\<close> bytes, every
  chunk but the last holds exactly \<open>size\<close> bytes, the concatenation of the chunks is the
  packet, and there is no chunk at all exactly when the packet is empty.
\<close>

theorem splitIntoChunks_roundtrip:
  assumes "1 \<le> chunk_size"
  shows "\<exists>chunks. splitIntoChunks data chunk_size = Inr chunks
           \<and> concat chunks = data
           \<and> (\<forall>i < length chunks.
                 chunks ! i = py_slice data (i * nat chunk_size) (i * nat chunk_size + nat chunk_size)
                 \<and> 1 \<le> length (chunks ! i)
                 \<and> length (chunks ! i) \<le> nat chunk_size
                 \<and> (Suc i < length chunks \<longrightarrow> length (chunks ! i) = nat chunk_size))
           \<and> (chunks = [] \<longleftrightarrow> data = [])"
proof -
  define k where "k = nat chunk_size"
  define r where "r = range_from 0 (length data) k"
  define chunks where "chunks = map (\<lambda>i. py_slice data i (i + k)) r"
  have k: "0 < k" using assms by (simp add: k_def)
  have split: "splitIntoChunks data chunk_size = Inr chunks"
    using assms by (simp add: splitIntoChunks_def chunks_def r_def k_def)
  have cat: "concat chunks = data"
    using concat_slices_range_from [OF k, of data 0] by (simp add: chunks_def r_def)
  have each: "chunks ! i = py_slice data (i * k) (i * k + k)
              \<and> 1 \<le> length (chunks ! i) \<and> length (chunks ! i) \<le> k
              \<and> (Suc i < length chunks \<longrightarrow> length (chunks ! i) = k)"
    if i: "i < length chunks" for i
  proof -
    from i have ir: "i < length r" by (simp add: chunks_def)
    have nth: "r ! i = i * k"
      using range_from_nth [OF k, of i 0 "length data"] ir by (simp add: r_def)
    have "r ! i \<in> set r" using ir by simp
    then have lt: "i * k < length data"
      using range_from_less [of "r ! i" 0 "length data" k] nth by (simp add: r_def)
    have c: "chunks ! i = py_slice data (i * k) (i * k + k)"
      using ir nth by (simp add: chunks_def)
    have full: "length (chunks ! i) = k" if "Suc i < length chunks"
    proof -
      from that have "Suc i < length r" by (simp add: chunks_def)
      with ir have "0 + Suc i * k < length data"
        unfolding r_def by (rule range_from_last_reach [OF k])
      then show ?thesis by (simp add: c py_slice_def)
    qed
    from c lt k full show ?thesis by (auto simp: py_slice_def)
  qed
  have empty: "chunks = [] \<longleftrightarrow> data = []"
    using range_from_Nil_iff [OF k, of "length data"] by (simp add: chunks_def r_def)
  from split cat each empty show ?thesis
    unfolding k_def by blast
qed

theorem splitIntoChunks_roundtrip_witness:
  "(1::int) \<le> 512 \<and>
   (\<exists>chunks. splitIntoChunks (replicate 600 0) 512 = Inr chunks
      \<and> map length chunks = [512, 88]
      \<and> concat chunks = replicate 600 0
      \<and> (\<forall>i < length chunks.
            chunks ! i = py_slice (replicate 600 0) (i * 512) (i * 512 + 512)
            \<and> 1 \<le> length (chunks ! i) \<and> length (chunks ! i) \<le> 512
            \<and> (Suc i < length chunks \<longrightarrow> length (chunks ! i) = 512))
      \<and> (chunks = [] \<longleftrightarrow> replicate 600 (0::byte) = []))"
proof -
  have h: "(1::int) \<le> 512" by simp
  have len: "map length (map (\<lambda>i. py_slice (replicate 600 (0::byte)) i (i + 512))
               (range_from 0 600 512)) = [512, 88]"
    by (simp add: range_from.simps py_slice_def)
  from splitIntoChunks_roundtrip [OF h, of "replicate 600 0"] len h
  show ?thesis
    by (auto simp: splitIntoChunks_def)
qed

end
